theory Spec2Isabelle
  imports Main "HOL-Library.Multiset"
begin

section \<open>fetchmgr: the cached fetch engine and the serializing wrapper\<close>

text \<open>
  The development embeds \<^verbatim>\<open>cacher.go\<close> (CachedFetcher, its deletion queue and its
  eviction loop) and the SafeFetcher of the second source file. Keys, values and errors are
  type parameters \<open>'k\<close>, \<open>'v\<close>, \<open>'e\<close>; a Go \<^verbatim>\<open>interface{}\<close> value or \<^verbatim>\<open>error\<close> that may
  be \<^verbatim>\<open>nil\<close> is an \<open>option\<close>, with \<open>None\<close> for \<^verbatim>\<open>nil\<close>.
\<close>

subsection \<open>Time\<close>

text \<open>
  A \<^verbatim>\<open>time.Time\<close> is an instant on the time line and a \<^verbatim>\<open>time.Duration\<close> a signed number
  of nanoseconds; both are integers here. \<^verbatim>\<open>Time.Add\<close> is exact over the whole range of
  \<^verbatim>\<open>Duration\<close>, and \<^verbatim>\<open>Time.Before\<close> is the strict order of instants.
\<close>

type_synonym time = int

type_synonym duration = int

definition time_Add :: "time \<Rightarrow> duration \<Rightarrow> time" where
  "time_Add t d = t + d"

definition time_Before :: "time \<Rightarrow> time \<Rightarrow> bool" where
  "time_Before t u = (t < u)"

subsection \<open>deleteItem and deleteQueue\<close>

record 'k deleteItem =
  key :: 'k
  expire :: time

type_synonym 'k deleteQueue = "'k deleteItem list"

definition Len :: "'k deleteQueue \<Rightarrow> nat" where
  "Len dq = length dq"

text \<open>
  \<^verbatim>\<open>Less\<close> and \<^verbatim>\<open>Swap\<close> index the slice; container/heap calls them with indices below
  \<^verbatim>\<open>Len\<close> only (see \<open>up\<close>, \<open>down\<close> and \<open>heap_Pop\<close>, which refuses the empty queue).
\<close>

definition Less :: "'k deleteQueue \<Rightarrow> nat \<Rightarrow> nat \<Rightarrow> bool" where
  "Less dq i j = time_Before (expire (dq ! i)) (expire (dq ! j))"

definition Swap :: "'k deleteQueue \<Rightarrow> nat \<Rightarrow> nat \<Rightarrow> 'k deleteQueue" where
  "Swap dq i j = dq[i := dq ! j, j := dq ! i]"

definition dq_Push :: "'k deleteQueue \<Rightarrow> 'k deleteItem \<Rightarrow> 'k deleteQueue" where
  "dq_Push dq x = dq @ [x]"

text \<open>\<^verbatim>\<open>(*dq)[n-1]\<close> panics on the empty slice: \<open>None\<close>.\<close>

definition dq_Pop :: "'k deleteQueue \<Rightarrow> ('k deleteItem \<times> 'k deleteQueue) option" where
  "dq_Pop dq =
     (let n = length dq
      in if n = 0 then None else Some (dq ! (n - 1), take (n - 1) dq))"

subsection \<open>container/heap of the Go standard library\<close>

text \<open>
  \<^verbatim>\<open>heap.Push\<close>, \<^verbatim>\<open>heap.Pop\<close> and their loops \<^verbatim>\<open>up\<close> and \<^verbatim>\<open>down\<close>, over the methods of
  \<open>deleteQueue\<close>. In \<^verbatim>\<open>up\<close>, Go's \<^verbatim>\<open>(j - 1) / 2\<close> truncates towards zero, so the parent of
  index 0 is 0; on \<open>nat\<close>, \<open>(0 - 1) div 2 = 0\<close> as well. The overflow guard \<^verbatim>\<open>j1 < 0\<close> of
  \<^verbatim>\<open>down\<close> never fires for the length of a slice. \<^verbatim>\<open>down\<close> returns whether it moved the
  element; \<^verbatim>\<open>heap.Pop\<close> discards that, and so does the model.
\<close>

function up :: "'k deleteQueue \<Rightarrow> nat \<Rightarrow> 'k deleteQueue" where
  "up h j =
     (let i = (j - 1) div 2
      in if i = j \<or> \<not> Less h j i then h else up (Swap h i j) i)"
  by pat_completeness auto
termination
  by (relation "measure (\<lambda>(h, j). j)") auto

declare up.simps [simp del]

function down :: "'k deleteQueue \<Rightarrow> nat \<Rightarrow> nat \<Rightarrow> 'k deleteQueue" where
  "down h i n =
     (let j1 = 2 * i + 1
      in if j1 \<ge> n then h
         else let j = (if j1 + 1 < n \<and> Less h (j1 + 1) j1 then j1 + 1 else j1)
              in if \<not> Less h j i then h else down (Swap h i j) j n)"
  by pat_completeness auto
termination
  by (relation "measure (\<lambda>(h, i, n). n - i)") auto

declare down.simps [simp del]

definition heap_Push :: "'k deleteQueue \<Rightarrow> 'k deleteItem \<Rightarrow> 'k deleteQueue" where
  "heap_Push h x = (let h1 = dq_Push h x in up h1 (Len h1 - 1))"

text \<open>On the empty queue \<^verbatim>\<open>heap.Pop\<close> panics in \<^verbatim>\<open>Swap(0, -1)\<close>: \<open>None\<close>.\<close>

definition heap_Pop :: "'k deleteQueue \<Rightarrow> ('k deleteItem \<times> 'k deleteQueue) option" where
  "heap_Pop h =
     (if Len h = 0 then None
      else let n = Len h - 1;
               h1 = Swap h 0 n;
               h2 = down h1 0 n
           in dq_Pop h2)"

subsection \<open>CachedFetcher\<close>

text \<open>
  One miss of \<^verbatim>\<open>pickEntry\<close> creates the variables \<^verbatim>\<open>val\<close>, \<^verbatim>\<open>err\<close> and \<^verbatim>\<open>done\<close>, captured
  by the goroutine (which also captures \<^verbatim>\<open>key\<close>) and by the \<^verbatim>\<open>lazy\<close> closure of the entry.
  They live in a store cell; \<open>closed\<close> says that \<^verbatim>\<open>done\<close> has been closed. An entry is its
  \<^verbatim>\<open>lazy\<close> closure, that is the address of the cell.
\<close>

record ('k, 'v, 'e) closure =
  ckey :: 'k
  val :: "'v option"
  err :: "'e option"
  closed :: bool

datatype entry = Entry (lazy: nat)

datatype mutex_id = CacheMutex | QueMutex

text \<open>
  The statements with an effect outside the function, in the order the code runs them:
  \<^verbatim>\<open>c.mutex\<close> is \<open>CacheMutex\<close> and \<^verbatim>\<open>c.queMutex\<close> is \<open>QueMutex\<close>; \<open>Go k\<close> is the \<^verbatim>\<open>go\<close>
  statement of \<^verbatim>\<open>pickEntry\<close>, \<open>CallFetch k\<close> the call \<^verbatim>\<open>c.fetcher.Fetch(key)\<close> returning.
\<close>

datatype 'k event =
    Lock mutex_id
  | Unlock mutex_id
  | Go 'k
  | MapStore 'k
  | MapDelete 'k
  | HeapPush 'k time
  | HeapPop 'k time
  | CallFetch 'k
  | CloseDone nat

record ('k, 'v, 'e) CachedFetcher =
  ttl :: duration
  cache :: "'k \<rightharpoonup> entry"
  queue :: "'k deleteQueue"
  closures :: "('k, 'v, 'e) closure list"
  log :: "'k event list"

definition emit :: "('k, 'v, 'e) CachedFetcher \<Rightarrow> 'k event \<Rightarrow> ('k, 'v, 'e) CachedFetcher" where
  "emit c ev = c\<lparr>log := log c @ [ev]\<rparr>"

text \<open>
  \<^verbatim>\<open>NewCachedFetcher\<close> stores the TTL as given. The fetcher is the environment: what
  \<^verbatim>\<open>c.fetcher.Fetch(key)\<close> returns is an argument of \<open>goroutine\<close>. The eviction loop it
  starts is the sequence of \<open>deleteLoop_cycle\<close> steps of a run.
\<close>

definition NewCachedFetcher :: "duration \<Rightarrow> ('k, 'v, 'e) CachedFetcher" where
  "NewCachedFetcher t = \<lparr>ttl = t, cache = Map.empty, queue = [], closures = [], log = []\<rparr>"

definition deleteKey :: "('k, 'v, 'e) CachedFetcher \<Rightarrow> 'k \<Rightarrow> ('k, 'v, 'e) CachedFetcher" where
  "deleteKey c k =
     (let c1 = emit c (Lock CacheMutex);
          c2 = emit (c1\<lparr>cache := (cache c1)(k := None)\<rparr>) (MapDelete k)
      in emit c2 (Unlock CacheMutex))"

text \<open>\<open>now\<close> is the reading of \<^verbatim>\<open>time.Now()\<close>.\<close>

definition queueKey ::
  "('k, 'v, 'e) CachedFetcher \<Rightarrow> 'k \<Rightarrow> duration \<Rightarrow> time \<Rightarrow> ('k, 'v, 'e) CachedFetcher" where
  "queueKey c k d now =
     (let c1 = emit c (Lock QueMutex);
          item = \<lparr>key = k, expire = time_Add now d\<rparr>;
          c2 = emit (c1\<lparr>queue := heap_Push (queue c1) item\<rparr>) (HeapPush k (expire item))
      in emit c2 (Unlock QueMutex))"

text \<open>
  The body of the goroutine of \<^verbatim>\<open>pickEntry\<close>, for the cell at address \<open>a\<close>, once
  \<^verbatim>\<open>c.fetcher.Fetch(key)\<close> has returned \<open>r\<close>.
\<close>

definition goroutine ::
  "('k, 'v, 'e) CachedFetcher \<Rightarrow> nat \<Rightarrow> 'v option \<times> 'e option \<Rightarrow> time \<Rightarrow> ('k, 'v, 'e) CachedFetcher" where
  "goroutine c a r now =
     (let f = closures c ! a;
          k = ckey f;
          c1 = emit c (CallFetch k);
          c2 = emit (c1\<lparr>closures := (closures c1)[a := f\<lparr>val := fst r, err := snd r, closed := True\<rparr>]\<rparr>)
                 (CloseDone a)
      in if snd r \<noteq> None then queueKey c2 k 0 now else queueKey c2 k (ttl c2) now)"

definition pickEntry :: "('k, 'v, 'e) CachedFetcher \<Rightarrow> 'k \<Rightarrow> entry \<times> ('k, 'v, 'e) CachedFetcher" where
  "pickEntry c k =
     (let c1 = emit c (Lock CacheMutex)
      in case cache c1 k of
           Some cached \<Rightarrow> (cached, emit c1 (Unlock CacheMutex))
         | None \<Rightarrow>
             let a = length (closures c1);
                 c2 = c1\<lparr>closures := closures c1 @ [\<lparr>ckey = k, val = None, err = None, closed = False\<rparr>]\<rparr>;
                 c3 = emit c2 (Go k);
                 cached = Entry a;
                 c4 = emit (c3\<lparr>cache := (cache c3)(k \<mapsto> cached)\<rparr>) (MapStore k)
             in (cached, emit c4 (Unlock CacheMutex)))"

text \<open>
  \<^verbatim>\<open>e.value()\<close> waits on \<^verbatim>\<open>done\<close> and then returns \<^verbatim>\<open>val, err\<close>: \<open>None\<close> is the caller
  still blocked, \<open>Some\<close> the pair it returns.
\<close>

definition entry_value :: "('k, 'v, 'e) CachedFetcher \<Rightarrow> entry \<Rightarrow> ('v option \<times> 'e option) option" where
  "entry_value c e =
     (let a = lazy e
      in if a < length (closures c) \<and> closed (closures c ! a)
         then Some (val (closures c ! a), err (closures c ! a)) else None)"


text \<open>
  One turn of the \<^verbatim>\<open>for\<close> loop of \<^verbatim>\<open>deleteLoop\<close>, up to the sleep; \<open>now\<close> is the reading
  of \<^verbatim>\<open>time.Now()\<close>. The loop never returns; a run of the engine holds one \<open>LoopCycle\<close>
  step for each turn. Behind the test \<^verbatim>\<open>c.queue.Len() > 0\<close> \<^verbatim>\<open>heap.Pop\<close> does not panic
  (lemma \<open>heap_Pop_Some\<close>), so the \<open>None\<close> case is never taken.
\<close>

definition deleteLoop_cycle :: "('k, 'v, 'e) CachedFetcher \<Rightarrow> time \<Rightarrow> ('k, 'v, 'e) CachedFetcher" where
  "deleteLoop_cycle c now =
     (let c1 = emit c (Lock QueMutex);
          c2 = (if Len (queue c1) > 0
                then (case heap_Pop (queue c1) of
                        None \<Rightarrow> c1
                      | Some (item, q) \<Rightarrow>
                          let c' = emit (c1\<lparr>queue := q\<rparr>) (HeapPop (key item) (expire item))
                          in if time_Before (expire item) now then deleteKey c' (key item)
                             else emit (c'\<lparr>queue := heap_Push (queue c') item\<rparr>)
                                    (HeapPush (key item) (expire item)))
                else c1)
      in emit c2 (Unlock QueMutex))"

subsection \<open>Runs of the engine\<close>

text \<open>
  The operations interleave: a caller runs \<^verbatim>\<open>pickEntry\<close>, a launched goroutine gets its
  result and finishes, the eviction loop takes a turn. A goroutine runs once: its step is
  enabled while its cell exists and \<^verbatim>\<open>done\<close> is open. \<^verbatim>\<open>pickEntry\<close> and \<^verbatim>\<open>deleteKey\<close>
  hold \<^verbatim>\<open>c.mutex\<close> from their first statement to their return, \<^verbatim>\<open>queueKey\<close> and a turn of
  the loop hold \<^verbatim>\<open>c.queMutex\<close> likewise, and a goroutine touches its own variables and the
  queue only; so a step here is one whole operation, and the log keeps the order of the
  statements inside it.
\<close>

datatype ('k, 'v, 'e) step =
    CallPickEntry 'k
  | GoroutineRuns nat "'v option" "'e option" time
  | LoopCycle time

fun exec_step :: "('k, 'v, 'e) CachedFetcher \<Rightarrow> ('k, 'v, 'e) step \<Rightarrow> ('k, 'v, 'e) CachedFetcher" where
  "exec_step c (CallPickEntry k) = snd (pickEntry c k)"
| "exec_step c (GoroutineRuns a v e now) =
     (if a < length (closures c) \<and> \<not> closed (closures c ! a) then goroutine c a (v, e) now else c)"
| "exec_step c (LoopCycle now) = deleteLoop_cycle c now"

definition exec :: "('k, 'v, 'e) CachedFetcher \<Rightarrow> ('k, 'v, 'e) step list \<Rightarrow> ('k, 'v, 'e) CachedFetcher" where
  "exec c steps = foldl exec_step c steps"


text \<open>The goroutines launched for a key so far: one cell each.\<close>

definition launched :: "('k, 'v, 'e) CachedFetcher \<Rightarrow> 'k \<Rightarrow> nat" where
  "launched c k = length (filter (\<lambda>f. ckey f = k) (closures c))"


subsection \<open>Reading the log\<close>

text \<open>
  The events one step adds to the log, and each event of a trace with the locks held when
  it happens: the first component is \<^verbatim>\<open>c.mutex\<close>, the second \<^verbatim>\<open>c.queMutex\<close>.
\<close>

definition trace :: "('k, 'v, 'e) CachedFetcher \<Rightarrow> ('k, 'v, 'e) step \<Rightarrow> 'k event list" where
  "trace c s = drop (length (log c)) (log (exec_step c s))"

fun annotate :: "bool \<Rightarrow> bool \<Rightarrow> 'k event list \<Rightarrow> (bool \<times> bool \<times> 'k event) list" where
  "annotate m q [] = []"
| "annotate m q (ev # evs) =
     (m, q, ev) #
     annotate (if ev = Lock CacheMutex then True else if ev = Unlock CacheMutex then False else m)
              (if ev = Lock QueMutex then True else if ev = Unlock QueMutex then False else q) evs"

fun is_lock_event :: "'k event \<Rightarrow> bool" where
  "is_lock_event (Lock m) = True"
| "is_lock_event (Unlock m) = True"
| "is_lock_event ev = False"

fun is_queue_op :: "'k event \<Rightarrow> bool" where
  "is_queue_op (HeapPush k t) = True"
| "is_queue_op (HeapPop k t) = True"
| "is_queue_op ev = False"

fun is_MapDelete :: "'k event \<Rightarrow> bool" where
  "is_MapDelete (MapDelete k) = True"
| "is_MapDelete ev = False"

text \<open>What happens while both locks are held, and while the queue lock is held.\<close>

definition under_both :: "'k event list \<Rightarrow> 'k event list" where
  "under_both evs = map (\<lambda>(m, q, ev). ev) (filter (\<lambda>(m, q, ev). m \<and> q \<and> \<not> is_lock_event ev) (annotate False False evs))"

definition under_queue :: "'k event list \<Rightarrow> 'k event list" where
  "under_queue evs = map (\<lambda>(m, q, ev). ev) (filter (\<lambda>(m, q, ev). q \<and> ev \<noteq> Unlock QueMutex) (annotate False False evs))"

fun is_Go :: "'k event \<Rightarrow> bool" where
  "is_Go (Go k) = True"
| "is_Go ev = False"

text \<open>
  The \<^verbatim>\<open>go\<close> statements of a trace with the locks held when they run, and the order of
  two events: \<open>x\<close> happens before the first \<open>y\<close>.
\<close>

definition launches :: "'k event list \<Rightarrow> (bool \<times> bool \<times> 'k event) list" where
  "launches evs = filter (\<lambda>(m, q, ev). is_Go ev) (annotate False False evs)"

definition precedes :: "'k event \<Rightarrow> 'k event \<Rightarrow> 'k event list \<Rightarrow> bool" where
  "precedes x y evs \<longleftrightarrow> x \<in> set (takeWhile (\<lambda>ev. ev \<noteq> y) evs) \<and> y \<in> set evs"

subsection \<open>SafeFetcher\<close>

text \<open>
  What the wrapped \<^verbatim>\<open>sf.fetcher.Fetch(k)\<close> does: it returns a pair, or it panics.
\<close>

datatype ('v, 'e, 'p) outcome = Returned "'v option" "'e option" | Panicked 'p

text \<open>
  A caller of \<^verbatim>\<open>SafeFetcher.Fetch(k)\<close> waits in \<^verbatim>\<open>sf.mutex.Lock()\<close>, then holds the mutex
  while the wrapped call is in flight, then runs the deferred \<^verbatim>\<open>sf.mutex.Unlock()\<close> and
  leaves with what the wrapped call did: the pair is returned, a panic goes on to the
  caller.
\<close>

datatype ('k, 'v, 'e, 'p) caller =
    Waiting 'k
  | Calling 'k
  | Finished "('v, 'e, 'p) outcome"

record ('k, 'v, 'e, 'p) SafeFetcher =
  locked :: bool
  callers :: "('k, 'v, 'e, 'p) caller list"

text \<open>\<^verbatim>\<open>NewSafeFetcher\<close> makes a fresh mutex, unlocked; nobody has called yet.\<close>

definition NewSafeFetcher :: "('k, 'v, 'e, 'p) SafeFetcher" where
  "NewSafeFetcher = \<lparr>locked = False, callers = []\<rparr>"

text \<open>
  The steps of a run: a new caller enters \<^verbatim>\<open>Fetch(k)\<close>; \<^verbatim>\<open>Lock()\<close> returns for caller
  \<open>i\<close>, which a mutex allows only while it is unlocked; the wrapped call of caller \<open>i\<close>
  ends with outcome \<open>r\<close> and the deferred \<^verbatim>\<open>Unlock()\<close> runs.
\<close>

datatype ('k, 'v, 'e, 'p) sf_step =
    Enter 'k
  | Acquire nat
  | Leave nat "('v, 'e, 'p) outcome"

fun SafeFetcher_step ::
  "('k, 'v, 'e, 'p) SafeFetcher \<Rightarrow> ('k, 'v, 'e, 'p) sf_step \<Rightarrow> ('k, 'v, 'e, 'p) SafeFetcher" where
  "SafeFetcher_step sf (Enter k) = sf\<lparr>callers := callers sf @ [Waiting k]\<rparr>"
| "SafeFetcher_step sf (Acquire i) =
     (if i < length (callers sf) \<and> \<not> locked sf
      then (case callers sf ! i of
              Waiting k \<Rightarrow> sf\<lparr>locked := True, callers := (callers sf)[i := Calling k]\<rparr>
            | _ \<Rightarrow> sf)
      else sf)"
| "SafeFetcher_step sf (Leave i r) =
     (if i < length (callers sf)
      then (case callers sf ! i of
              Calling k \<Rightarrow> sf\<lparr>locked := False, callers := (callers sf)[i := Finished r]\<rparr>
            | _ \<Rightarrow> sf)
      else sf)"

definition SafeFetcher_run ::
  "('k, 'v, 'e, 'p) SafeFetcher \<Rightarrow> ('k, 'v, 'e, 'p) sf_step list \<Rightarrow> ('k, 'v, 'e, 'p) SafeFetcher" where
  "SafeFetcher_run sf steps = foldl SafeFetcher_step sf steps"

fun is_Calling :: "('k, 'v, 'e, 'p) caller \<Rightarrow> bool" where
  "is_Calling (Calling k) = True"
| "is_Calling c = False"

text \<open>The calls of the wrapped Fetcher that are in flight.\<close>

definition in_flight :: "('k, 'v, 'e, 'p) SafeFetcher \<Rightarrow> nat" where
  "in_flight sf = length (filter is_Calling (callers sf))"

subsection \<open>Predicates of the proofs\<close>

definition is_heap :: "'k deleteQueue \<Rightarrow> bool" where
  "is_heap dq = (\<forall>k \<in> {1..<length dq}. \<not> Less dq k ((k - 1) div 2))"

definition parent :: "nat \<Rightarrow> nat" where
  "parent k = (k - 1) div 2"

definition heap_upto :: "'k deleteQueue \<Rightarrow> nat \<Rightarrow> bool" where
  "heap_upto h n = (\<forall>k. 0 < k \<and> k < n \<longrightarrow> expire (h ! parent k) \<le> expire (h ! k))"

definition up_inv :: "'k deleteQueue \<Rightarrow> nat \<Rightarrow> bool" where
  "up_inv h j \<longleftrightarrow> j < length h
     \<and> (\<forall>k. 0 < k \<and> k < length h \<and> k \<noteq> j \<longrightarrow> expire (h ! parent k) \<le> expire (h ! k))
     \<and> (\<forall>k. 0 < k \<and> k < length h \<and> parent k = j \<and> 0 < j \<longrightarrow>
            expire (h ! parent j) \<le> expire (h ! k))"

definition child :: "'k deleteQueue \<Rightarrow> nat \<Rightarrow> nat \<Rightarrow> nat" where
  "child h i n = (if 2 * i + 1 + 1 < n \<and> Less h (2 * i + 1 + 1) (2 * i + 1) then 2 * i + 1 + 1 else 2 * i + 1)"

definition down_inv :: "'k deleteQueue \<Rightarrow> nat \<Rightarrow> nat \<Rightarrow> bool" where
  "down_inv h i n \<longleftrightarrow> n \<le> length h
     \<and> (\<forall>k. 0 < k \<and> k < n \<and> parent k \<noteq> i \<longrightarrow> expire (h ! parent k) \<le> expire (h ! k))
     \<and> (\<forall>k. 0 < k \<and> k < n \<and> parent k = i \<and> 0 < i \<longrightarrow>
            expire (h ! parent i) \<le> expire (h ! k))"

subsection \<open>Counting retrievals\<close>





section \<open>Lists\<close>

lemma length_filter_update:
  "P y = P (xs ! a) \<Longrightarrow> length (filter P (xs[a := y])) = length (filter P xs)"
proof (induction xs arbitrary: a)
  case Nil
  then show ?case by simp
next
  case (Cons x xs)
  then show ?case by (cases a) simp_all
qed

lemma length_filter_list_update:
  "i < length xs \<Longrightarrow>
   length (filter P (xs[i := y])) + (if P (xs ! i) then 1 else 0) =
   length (filter P xs) + (if P y then 1 else 0)"
proof (induction xs arbitrary: i)
  case Nil
  then show ?case by simp
next
  case (Cons x xs)
  show ?case
  proof (cases i)
    case 0
    then show ?thesis by simp
  next
    case (Suc j)
    with Cons.prems have "j < length xs" by simp
    from Cons.IH [OF this] Suc show ?thesis by simp
  qed
qed

section \<open>The heap\<close>

lemma parent_less: "0 < k \<Longrightarrow> parent k < k"
  by (simp add: parent_def)

lemma up_stop: "parent j = j \<or> \<not> Less h j (parent j) \<Longrightarrow> up h j = h"
  by (subst up.simps) (auto simp: parent_def Let_def)

lemma up_step:
  "parent j \<noteq> j \<Longrightarrow> Less h j (parent j) \<Longrightarrow> up h j = up (Swap h (parent j) j) (parent j)"
  by (subst up.simps) (auto simp: parent_def Let_def)

lemma parent_eq_iff: "0 < k \<Longrightarrow> parent k = i \<longleftrightarrow> (k = 2 * i + 1 \<or> k = 2 * i + 2)"
  by (simp add: parent_def) arith

lemma length_Swap [simp]: "length (Swap h i j) = length h"
  by (simp add: Swap_def)

lemma mset_Swap: "i < length h \<Longrightarrow> j < length h \<Longrightarrow> mset (Swap h i j) = mset h"
  unfolding Swap_def by (simp add: mset_swap)

lemma nth_Swap:
  "i < length h \<Longrightarrow> j < length h \<Longrightarrow> k < length h \<Longrightarrow>
   Swap h i j ! k = (if k = j then h ! i else if k = i then h ! j else h ! k)"
  by (simp add: Swap_def nth_list_update)

lemma up_inv_step:
  assumes inv: "up_inv h j" and ne: "parent j \<noteq> j" and lt: "expire (h ! j) < expire (h ! parent j)"
  shows "up_inv (Swap h (parent j) j) (parent j)"
proof -
  let ?i = "parent j" and ?h = "Swap h (parent j) j"
  from inv have jl: "j < length h" by (simp add: up_inv_def)
  from ne have j0: "0 < j" by (cases j) (simp_all add: parent_def)
  then have ij: "?i < j" by (rule parent_less)
  with jl have il: "?i < length h" by simp
  have A: "\<And>k. 0 < k \<Longrightarrow> k < length h \<Longrightarrow> k \<noteq> j \<Longrightarrow> expire (h ! parent k) \<le> expire (h ! k)"
    using inv by (simp add: up_inv_def)
  have B: "\<And>k. 0 < k \<Longrightarrow> k < length h \<Longrightarrow> parent k = j \<Longrightarrow> expire (h ! ?i) \<le> expire (h ! k)"
    using inv j0 by (simp add: up_inv_def)
  have S: "\<And>k. k < length h \<Longrightarrow> ?h ! k = (if k = j then h ! ?i else if k = ?i then h ! j else h ! k)"
    using nth_Swap [OF il jl] by simp
  have A': "expire (?h ! parent k) \<le> expire (?h ! k)" if k: "0 < k" "k < length h" "k \<noteq> ?i" for k
  proof -
    from k have pk: "parent k < k" "parent k < length h" using parent_less [of k] by auto
    show ?thesis
    proof (cases "k = j")
      case True
      with lt ij show ?thesis by (simp add: S jl il)
    next
      case kj: False
      show ?thesis
      proof (cases "parent k = ?i")
        case True
        have "expire (h ! ?i) \<le> expire (h ! k)" using A [OF k(1,2) kj] True by simp
        with lt True kj k ij show ?thesis by (simp add: S il)
      next
        case pi: False
        show ?thesis
        proof (cases "parent k = j")
          case True
          from B [OF k(1,2) True] True kj k ij show ?thesis by (simp add: S jl)
        next
          case False
          with pi kj k pk A [OF k(1,2) kj] show ?thesis by (simp add: S)
        qed
      qed
    qed
  qed
  have B': "expire (?h ! parent ?i) \<le> expire (?h ! k)"
    if k: "0 < k" "k < length h" "parent k = ?i" "0 < ?i" for k
  proof -
    have pi: "parent ?i < ?i" using k(4) by (rule parent_less)
    have 1: "expire (h ! parent ?i) \<le> expire (h ! ?i)"
      using A [of ?i] k(4) il ij by simp
    have 2: "?h ! parent ?i = h ! parent ?i" using pi il ij by (simp add: S)
    show ?thesis
    proof (cases "k = j")
      case True
      with 1 2 show ?thesis by (simp add: S jl)
    next
      case False
      have "k \<noteq> ?i" using k(1,3) parent_less [of k] by auto
      with False have "?h ! k = h ! k" using k(2) by (simp add: S)
      moreover have "expire (h ! ?i) \<le> expire (h ! k)" using A [OF k(1,2) False] k(3) by simp
      ultimately show ?thesis using 1 2 by simp
    qed
  qed
  show ?thesis
    unfolding up_inv_def using il A' B' by simp
qed

lemma up_inv_heap: "up_inv h j \<Longrightarrow> heap_upto (up h j) (length h)"
proof (induction h j rule: up.induct)
  case (1 h j)
  show ?case
  proof (cases "parent j = j \<or> \<not> Less h j (parent j)")
    case True
    have "expire (h ! parent k) \<le> expire (h ! k)" if "0 < k" "k < length h" for k
    proof (cases "k = j")
      case kj: True
      with True that parent_less [of j]
      show ?thesis by (auto simp: Less_def time_Before_def)
    next
      case False
      with "1.prems" that show ?thesis by (simp add: up_inv_def)
    qed
    then show ?thesis by (simp add: up_stop [OF True] heap_upto_def)
  next
    case False
    then have ne: "parent j \<noteq> j" and ls: "Less h j (parent j)" by simp_all
    then have lt: "expire (h ! j) < expire (h ! parent j)"
      by (simp add: Less_def time_Before_def)
    have "heap_upto (up (Swap h (parent j) j) (parent j)) (length (Swap h (parent j) j))"
      using False up_inv_step [OF "1.prems" ne lt]
      by (intro "1.IH" [unfolded parent_def [symmetric]]) (simp_all add: parent_def)
    then show ?thesis by (simp add: up_step [OF ne ls])
  qed
qed

lemma length_up [simp]: "length (up h j) = length h"
proof (induction h j rule: up.induct)
  case (1 h j)
  show ?case
  proof (cases "parent j = j \<or> \<not> Less h j (parent j)")
    case True
    then show ?thesis by (simp add: up_stop)
  next
    case False
    then have ne: "parent j \<noteq> j" and ls: "Less h j (parent j)" by simp_all
    have "length (up (Swap h (parent j) j) (parent j)) = length (Swap h (parent j) j)"
      using False by (intro "1.IH" [unfolded parent_def [symmetric]]) (simp_all add: parent_def)
    then show ?thesis by (simp add: up_step [OF ne ls])
  qed
qed

lemma mset_up: "j < length h \<Longrightarrow> mset (up h j) = mset h"
proof (induction h j rule: up.induct)
  case (1 h j)
  show ?case
  proof (cases "parent j = j \<or> \<not> Less h j (parent j)")
    case True
    then show ?thesis by (simp add: up_stop)
  next
    case False
    then have ne: "parent j \<noteq> j" and ls: "Less h j (parent j)" by simp_all
    have il: "parent j < length h" using "1.prems" by (simp add: parent_def)
    have "mset (up (Swap h (parent j) j) (parent j)) = mset (Swap h (parent j) j)"
      using False il by (intro "1.IH" [unfolded parent_def [symmetric]]) (simp_all add: parent_def)
    then show ?thesis using il "1.prems" by (simp add: up_step [OF ne ls] mset_Swap)
  qed
qed

lemma down_stop:
  "n \<le> 2 * i + 1 \<or> \<not> Less h (child h i n) i \<Longrightarrow> down h i n = h"
  by (subst down.simps) (auto simp: child_def Let_def)

lemma down_step:
  "2 * i + 1 < n \<Longrightarrow> Less h (child h i n) i \<Longrightarrow>
   down h i n = down (Swap h i (child h i n)) (child h i n) n"
  by (subst down.simps) (auto simp: child_def Let_def)

lemma child_bounds: "2 * i + 1 < n \<Longrightarrow> i < child h i n \<and> child h i n < n \<and> parent (child h i n) = i"
  by (auto simp: child_def parent_def)

lemma child_min:
  assumes "2 * i + 1 < n" "0 < k" "k < n" "parent k = i"
  shows "expire (h ! child h i n) \<le> expire (h ! k)"
proof -
  from assms(2,4) have "k = 2 * i + 1 \<or> k = 2 * i + 2" by (simp add: parent_eq_iff)
  with assms(3) show ?thesis
    by (auto simp: child_def Less_def time_Before_def)
qed

lemma down_inv_step:
  assumes inv: "down_inv h i n" and c: "2 * i + 1 < n"
    and lt: "expire (h ! child h i n) < expire (h ! i)"
  shows "down_inv (Swap h i (child h i n)) (child h i n) n"
proof -
  let ?j = "child h i n"
  let ?h = "Swap h i ?j"
  from child_bounds [OF c, of h] have ij: "i < ?j" and jn: "?j < n" and pj: "parent ?j = i" by simp_all
  from inv have nl: "n \<le> length h" by (simp add: down_inv_def)
  with jn ij have jl: "?j < length h" and il: "i < length h" by simp_all
  have A: "\<And>k. 0 < k \<Longrightarrow> k < n \<Longrightarrow> parent k \<noteq> i \<Longrightarrow> expire (h ! parent k) \<le> expire (h ! k)"
    using inv by (simp add: down_inv_def)
  have B: "\<And>k. 0 < k \<Longrightarrow> k < n \<Longrightarrow> parent k = i \<Longrightarrow> 0 < i \<Longrightarrow> expire (h ! parent i) \<le> expire (h ! k)"
    using inv by (simp add: down_inv_def)
  have S: "\<And>k. k < length h \<Longrightarrow> ?h ! k = (if k = ?j then h ! i else if k = i then h ! ?j else h ! k)"
    using nth_Swap [OF il jl] by simp
  have A': "expire (?h ! parent k) \<le> expire (?h ! k)" if k: "0 < k" "k < n" "parent k \<noteq> ?j" for k
  proof -
    from k nl have pk: "parent k < k" "parent k < length h" "k < length h"
      using parent_less [of k] by auto
    show ?thesis
    proof (cases "parent k = i")
      case True
      have m: "expire (h ! ?j) \<le> expire (h ! k)" using child_min [OF c k(1,2) True] .
      have ki: "k \<noteq> i" using True pk(1) by simp
      show ?thesis
      proof (cases "k = ?j")
        case True
        with lt \<open>parent k = i\<close> ij show ?thesis by (simp add: S il jl)
      next
        case False
        with m ki True ij show ?thesis by (simp add: S il pk)
      qed
    next
      case pi: False
      have kj: "k \<noteq> ?j" using pi pj by auto
      show ?thesis
      proof (cases "k = i")
        case True
        then have i0: "0 < i" using k(1) by simp
        have "parent i < i" using i0 by (rule parent_less)
        then have "?h ! parent i = h ! parent i" using ij il by (simp add: S)
        moreover have "expire (h ! parent i) \<le> expire (h ! ?j)"
          using B [OF _ jn pj i0] ij by simp
        ultimately show ?thesis using True ij by (simp add: S il)
      next
        case False
        with kj pi k(3) pk A [OF k(1,2) pi] show ?thesis by (simp add: S)
      qed
    qed
  qed
  have B': "expire (?h ! parent ?j) \<le> expire (?h ! k)"
    if k: "0 < k" "k < n" "parent k = ?j" for k
  proof -
    from k nl have pk: "parent k < k" "k < length h" using parent_less [of k] by auto
    have kj: "k \<noteq> ?j" "k \<noteq> i" using pk(1) k(3) ij by auto
    have "parent k \<noteq> i" using k(3) ij by simp
    from A [OF k(1,2) this] k(3) have "expire (h ! ?j) \<le> expire (h ! k)" by simp
    with kj pj ij show ?thesis by (simp add: S il pk)
  qed
  show ?thesis
    unfolding down_inv_def using nl A' B' by simp
qed

lemma down_inv_heap: "down_inv h i n \<Longrightarrow> heap_upto (down h i n) n"
proof (induction h i n rule: down.induct)
  case (1 h i n)
  show ?case
  proof (cases "n \<le> 2 * i + 1 \<or> \<not> Less h (child h i n) i")
    case True
    have "expire (h ! parent k) \<le> expire (h ! k)" if k: "0 < k" "k < n" for k
    proof (cases "parent k = i")
      case pk: True
      then have "k = 2 * i + 1 \<or> k = 2 * i + 2" using k(1) by (simp add: parent_eq_iff)
      with k(2) have c: "2 * i + 1 < n" by auto
      with True have "expire (h ! i) \<le> expire (h ! child h i n)"
        by (simp add: Less_def time_Before_def)
      with child_min [OF c k pk, of h] pk show ?thesis by simp
    next
      case False
      with "1.prems" k show ?thesis by (simp add: down_inv_def)
    qed
    then show ?thesis by (simp add: down_stop [OF True] heap_upto_def)
  next
    case False
    then have c: "2 * i + 1 < n" and ls: "Less h (child h i n) i" by simp_all
    then have lt: "expire (h ! child h i n) < expire (h ! i)"
      by (simp add: Less_def time_Before_def)
    have "heap_upto (down (Swap h i (child h i n)) (child h i n) n) n"
      using c ls down_inv_step [OF "1.prems" c lt]
      by (intro "1.IH" [of "2 * i + 1" "child h i n"]) (simp_all add: child_def)
    then show ?thesis by (simp add: down_step [OF c ls])
  qed
qed

lemma length_down [simp]: "length (down h i n) = length h"
proof (induction h i n rule: down.induct)
  case (1 h i n)
  show ?case
  proof (cases "n \<le> 2 * i + 1 \<or> \<not> Less h (child h i n) i")
    case True
    then show ?thesis by (simp add: down_stop)
  next
    case False
    then have c: "2 * i + 1 < n" and ls: "Less h (child h i n) i" by simp_all
    have "length (down (Swap h i (child h i n)) (child h i n) n) = length (Swap h i (child h i n))"
      using c ls by (intro "1.IH" [of "2 * i + 1" "child h i n"]) (simp_all add: child_def)
    then show ?thesis by (simp add: down_step [OF c ls])
  qed
qed

lemma mset_down: "n \<le> length h \<Longrightarrow> mset (down h i n) = mset h"
proof (induction h i n rule: down.induct)
  case (1 h i n)
  show ?case
  proof (cases "n \<le> 2 * i + 1 \<or> \<not> Less h (child h i n) i")
    case True
    then show ?thesis by (simp add: down_stop)
  next
    case False
    then have c: "2 * i + 1 < n" and ls: "Less h (child h i n) i" by simp_all
    from child_bounds [OF c, of h] "1.prems"
    have b: "i < length h" "child h i n < length h" by simp_all
    have "mset (down (Swap h i (child h i n)) (child h i n) n) = mset (Swap h i (child h i n))"
      using c ls "1.prems" by (intro "1.IH" [of "2 * i + 1" "child h i n"]) (simp_all add: child_def)
    then show ?thesis using b by (simp add: down_step [OF c ls] mset_Swap)
  qed
qed

lemma nth_down_ge: "n \<le> length h \<Longrightarrow> n \<le> m \<Longrightarrow> m < length h \<Longrightarrow> down h i n ! m = h ! m"
proof (induction h i n rule: down.induct)
  case (1 h i n)
  show ?case
  proof (cases "n \<le> 2 * i + 1 \<or> \<not> Less h (child h i n) i")
    case True
    then show ?thesis by (simp add: down_stop)
  next
    case False
    then have c: "2 * i + 1 < n" and ls: "Less h (child h i n) i" by simp_all
    from child_bounds [OF c, of h] "1.prems"
    have b: "i < length h" "child h i n < length h" "m \<noteq> i" "m \<noteq> child h i n" by simp_all
    have "down (Swap h i (child h i n)) (child h i n) n ! m = Swap h i (child h i n) ! m"
      using c ls "1.prems" by (intro "1.IH" [of "2 * i + 1" "child h i n"]) (simp_all add: child_def)
    then show ?thesis using b "1.prems" by (simp add: down_step [OF c ls] nth_Swap)
  qed
qed

lemma is_heap_iff: "is_heap h \<longleftrightarrow> heap_upto h (length h)"
  by (auto simp: is_heap_def heap_upto_def parent_def Less_def time_Before_def not_less Suc_le_eq)

lemma heap_upto_root:
  assumes "heap_upto h n" "k < n"
  shows "expire (h ! 0) \<le> expire (h ! k)"
  using assms(2)
proof (induction k rule: less_induct)
  case (less k)
  show ?case
  proof (cases "k = 0")
    case True
    then show ?thesis by simp
  next
    case False
    then have p: "parent k < k" by (simp add: parent_less)
    with less.prems have "expire (h ! 0) \<le> expire (h ! parent k)"
      by (intro less.IH) simp_all
    moreover have "expire (h ! parent k) \<le> expire (h ! k)"
      using assms(1) False less.prems by (simp add: heap_upto_def)
    ultimately show ?thesis by simp
  qed
qed

lemma is_heap_Push: "is_heap h \<Longrightarrow> is_heap (heap_Push h x)"
proof -
  assume hp: "is_heap h"
  let ?h = "h @ [x]"
  have "up_inv ?h (length h)"
    unfolding up_inv_def
  proof (intro conjI allI impI)
    show "length h < length ?h" by simp
  next
    fix k assume k: "0 < k \<and> k < length ?h \<and> k \<noteq> length h"
    then have kl: "k < length h" by simp
    with k have "parent k < length h" using parent_less [of k] by simp
    with hp k kl show "expire (?h ! parent k) \<le> expire (?h ! k)"
      by (simp add: is_heap_iff heap_upto_def nth_append)
  next
    fix k assume k: "0 < k \<and> k < length ?h \<and> parent k = length h \<and> 0 < length h"
    then have k0: "0 < k" and k1: "k < Suc (length h)" and k2: "parent k = length h" by simp_all
    from parent_less [OF k0] k1 k2 have False by linarith
    then show "expire (?h ! parent (length h)) \<le> expire (?h ! k)" ..
  qed
  from up_inv_heap [OF this] show ?thesis
    by (simp add: heap_Push_def dq_Push_def Len_def is_heap_iff Let_def)
qed

lemma mset_heap_Push: "mset (heap_Push h x) = add_mset x (mset h)"
  by (simp add: heap_Push_def dq_Push_def Len_def Let_def mset_up)

lemma length_heap_Push: "length (heap_Push h x) = Suc (length h)"
  by (simp add: heap_Push_def dq_Push_def Len_def Let_def)

lemma Swap_Nil_iff [simp]: "Swap h i j = [] \<longleftrightarrow> h = []"
  by (simp add: Swap_def)

lemma heap_Pop_empty: "heap_Pop [] = None"
  by (simp add: heap_Pop_def Len_def)

lemma heap_Pop_correct:
  assumes hp: "is_heap h" and ne: "h \<noteq> []"
  shows "\<exists>h'. heap_Pop h = Some (h ! 0, h') \<and> is_heap h' \<and> mset h = add_mset (h ! 0) (mset h')
            \<and> (\<forall>x \<in> set h. expire (h ! 0) \<le> expire x)"
proof -
  let ?n = "length h - 1"
  let ?h1 = "Swap h 0 ?n"
  let ?h2 = "down ?h1 0 ?n"
  from ne have nl: "?n < length h" by (cases h) simp_all
  have l0: "0 < length h" using ne by simp
  have H: "\<And>k. 0 < k \<Longrightarrow> k < length h \<Longrightarrow> expire (h ! parent k) \<le> expire (h ! k)"
    using hp by (simp add: is_heap_iff heap_upto_def)
  have "down_inv ?h1 0 ?n"
    unfolding down_inv_def
  proof (intro conjI allI impI)
    show "?n \<le> length ?h1" by simp
  next
    fix k assume k: "0 < k \<and> k < ?n \<and> parent k \<noteq> 0"
    then have k0: "0 < k" and k1: "k < ?n" and k2: "parent k \<noteq> 0" by simp_all
    have pk: "parent k < k" using k0 by (rule parent_less)
    have kl: "k < length h" "parent k < length h" using k1 pk by simp_all
    have "?h1 ! parent k = h ! parent k"
      using nth_Swap [OF l0 nl kl(2)] k1 k2 pk by simp
    moreover have "?h1 ! k = h ! k"
      using nth_Swap [OF l0 nl kl(1)] k0 k1 by simp
    ultimately show "expire (?h1 ! parent k) \<le> expire (?h1 ! k)"
      using H [OF k0 kl(1)] by simp
  next
    fix k assume "0 < k \<and> k < ?n \<and> parent k = 0 \<and> (0::nat) < 0"
    then show "expire (?h1 ! parent 0) \<le> expire (?h1 ! k)" by simp
  qed
  then have hu: "heap_upto ?h2 ?n" by (rule down_inv_heap)
  have last: "?h2 ! ?n = h ! 0"
    using nl l0 by (simp add: nth_down_ge nth_Swap)
  have ms: "mset ?h2 = mset h"
    using nl l0 by (simp add: mset_down mset_Swap)
  have len: "length ?h2 = length h" by simp
  have pop: "heap_Pop h = Some (h ! 0, take ?n ?h2)"
    using l0 last by (simp add: heap_Pop_def dq_Pop_def Len_def Let_def)
  have "heap_upto (take ?n ?h2) ?n"
    unfolding heap_upto_def
  proof (intro allI impI)
    fix k assume k: "0 < k \<and> k < ?n"
    then have "parent k < ?n" using parent_less [of k] by simp
    with k hu show "expire (take ?n ?h2 ! parent k) \<le> expire (take ?n ?h2 ! k)"
      by (simp add: heap_upto_def)
  qed
  then have h': "is_heap (take ?n ?h2)" using nl by (simp add: is_heap_iff min_def)
  have "?h2 = take ?n ?h2 @ [?h2 ! ?n]"
    using nl len by (metis Suc_diff_1 l0 take_Suc_conv_app_nth take_all order_refl)
  then have "mset ?h2 = add_mset (?h2 ! ?n) (mset (take ?n ?h2))"
    by (metis mset.simps(2) mset_append union_mset_add_mset_right add.right_neutral mset.simps(1))
  with ms last have m: "mset h = add_mset (h ! 0) (mset (take ?n ?h2))" by simp
  have mn: "\<forall>x \<in> set h. expire (h ! 0) \<le> expire x"
  proof
    fix x assume "x \<in> set h"
    then obtain k where "k < length h" "x = h ! k" by (auto simp: in_set_conv_nth)
    with heap_upto_root [of h "length h" k] hp show "expire (h ! 0) \<le> expire x"
      by (simp add: is_heap_iff)
  qed
  from pop h' m mn show ?thesis by blast
qed

section \<open>The deletion queue\<close>

lemma is_heap_Nil: "is_heap []"
  by (simp add: is_heap_def)

lemma is_heap_inserts: "is_heap q \<Longrightarrow> is_heap (foldl heap_Push q xs)"
  by (induction xs arbitrary: q) (simp_all add: is_heap_Push)

lemma mset_inserts: "mset (foldl heap_Push q xs) = mset q + mset xs"
  by (induction xs arbitrary: q) (simp_all add: mset_heap_Push)

text \<open>
  Claim C7. For every sequence of inserts into the deletion queue, the queue is empty
  exactly when nothing was inserted, and otherwise \<^verbatim>\<open>heap.Pop\<close> removes and returns one
  of the inserted items whose expiry is smallest (no inserted item expires before it); the
  rest of the queue holds the other items and is a heap again.
\<close>

theorem deleteQueue_extract_min:
  "(Len (foldl heap_Push [] xs) = 0 \<longleftrightarrow> xs = []) \<and>
   (xs = [] \<or>
    (\<exists>it q'. heap_Pop (foldl heap_Push [] xs) = Some (it, q') \<and> it \<in> set xs
       \<and> (\<forall>x \<in> set xs. expire it \<le> expire x)
       \<and> mset q' = mset xs - {#it#} \<and> is_heap q'))"
proof -
  let ?q = "foldl heap_Push [] xs"
  have hp: "is_heap ?q" by (simp add: is_heap_inserts is_heap_Nil)
  have ms: "mset ?q = mset xs" by (simp add: mset_inserts)
  have e: "Len ?q = 0 \<longleftrightarrow> xs = []"
    using ms by (metis Len_def length_0_conv mset_zero_iff)
  have "\<exists>it q'. heap_Pop ?q = Some (it, q') \<and> it \<in> set xs
       \<and> (\<forall>x \<in> set xs. expire it \<le> expire x)
       \<and> mset q' = mset xs - {#it#} \<and> is_heap q'" if "xs \<noteq> []"
  proof -
    from that e have ne: "?q \<noteq> []" by (simp add: Len_def)
    from heap_Pop_correct [OF hp ne] obtain h' where
      p: "heap_Pop ?q = Some (?q ! 0, h')" and h': "is_heap h'"
      and m: "mset ?q = add_mset (?q ! 0) (mset h')"
      and mn: "\<forall>x \<in> set ?q. expire (?q ! 0) \<le> expire x" by blast
    have s: "set ?q = set xs" using ms by (metis set_mset_mset)
    from ne have "?q ! 0 \<in> set ?q" by (simp add: nth_mem)
    with s have i: "?q ! 0 \<in> set xs" by simp
    from m ms have "mset h' = mset xs - {#?q ! 0#}" by (metis add_mset_remove_trivial)
    with p h' mn s i show ?thesis by auto
  qed
  with e show ?thesis by blast
qed

theorem deleteQueue_extract_min_witness:
  "\<exists>q'. heap_Pop (foldl heap_Push []
       [\<lparr>key = 1::nat, expire = 5\<rparr>, \<lparr>key = 2, expire = 3\<rparr>, \<lparr>key = 3, expire = 4\<rparr>])
     = Some (\<lparr>key = 2, expire = 3\<rparr>, q')"
  using deleteQueue_extract_min
    [of "[\<lparr>key = 1::nat, expire = 5\<rparr>, \<lparr>key = 2, expire = 3\<rparr>, \<lparr>key = 3, expire = 4\<rparr>]"]
  by auto

section \<open>The operations of the engine\<close>

lemma emit_fields [simp]:
  "ttl (emit c ev) = ttl c" "cache (emit c ev) = cache c" "queue (emit c ev) = queue c"
  "closures (emit c ev) = closures c" "log (emit c ev) = log c @ [ev]"
  by (simp_all add: emit_def)

lemma pickEntry_hit:
  "cache c k = Some e \<Longrightarrow>
   pickEntry c k = (e, c\<lparr>log := log c @ [Lock CacheMutex, Unlock CacheMutex]\<rparr>)"
  by (simp add: pickEntry_def emit_def)

lemma pickEntry_miss:
  "cache c k = None \<Longrightarrow>
   pickEntry c k =
     (Entry (length (closures c)),
      c\<lparr>cache := (cache c)(k \<mapsto> Entry (length (closures c))),
        closures := closures c @ [\<lparr>ckey = k, val = None, err = None, closed = False\<rparr>],
        log := log c @ [Lock CacheMutex, Go k, MapStore k, Unlock CacheMutex]\<rparr>)"
  by (simp add: pickEntry_def emit_def Let_def)

lemma deleteKey_eq:
  "deleteKey c k =
     c\<lparr>cache := (cache c)(k := None),
       log := log c @ [Lock CacheMutex, MapDelete k, Unlock CacheMutex]\<rparr>"
  by (simp add: deleteKey_def emit_def Let_def)

lemma queueKey_eq:
  "queueKey c k d now =
     c\<lparr>queue := heap_Push (queue c) \<lparr>key = k, expire = now + d\<rparr>,
       log := log c @ [Lock QueMutex, HeapPush k (now + d), Unlock QueMutex]\<rparr>"
  by (simp add: queueKey_def emit_def Let_def time_Add_def)

lemma goroutine_eq:
  "goroutine c a (v, er) now =
     c\<lparr>queue := heap_Push (queue c)
                  \<lparr>key = ckey (closures c ! a), expire = (if er = None then now + ttl c else now)\<rparr>,
       closures := (closures c)[a := (closures c ! a)\<lparr>val := v, err := er, closed := True\<rparr>],
       log := log c @ [CallFetch (ckey (closures c ! a)), CloseDone a, Lock QueMutex,
                       HeapPush (ckey (closures c ! a)) (if er = None then now + ttl c else now),
                       Unlock QueMutex]\<rparr>"
  by (simp add: goroutine_def queueKey_eq emit_def Let_def)

lemma deleteLoop_cycle_empty:
  "queue c = [] \<Longrightarrow> deleteLoop_cycle c now = c\<lparr>log := log c @ [Lock QueMutex, Unlock QueMutex]\<rparr>"
  by (simp add: deleteLoop_cycle_def emit_def Len_def)

lemma deleteLoop_cycle_expired:
  "heap_Pop (queue c) = Some (it, q) \<Longrightarrow> expire it < now \<Longrightarrow>
   deleteLoop_cycle c now =
     c\<lparr>cache := (cache c)(key it := None), queue := q,
       log := log c @ [Lock QueMutex, HeapPop (key it) (expire it), Lock CacheMutex,
                       MapDelete (key it), Unlock CacheMutex, Unlock QueMutex]\<rparr>"
  by (cases "queue c = []")
     (simp_all add: deleteLoop_cycle_def deleteKey_eq emit_def Len_def time_Before_def heap_Pop_empty)

lemma deleteLoop_cycle_pending:
  "heap_Pop (queue c) = Some (it, q) \<Longrightarrow> \<not> expire it < now \<Longrightarrow>
   deleteLoop_cycle c now =
     c\<lparr>queue := heap_Push q it,
       log := log c @ [Lock QueMutex, HeapPop (key it) (expire it),
                       HeapPush (key it) (expire it), Unlock QueMutex]\<rparr>"
  by (cases "queue c = []")
     (simp_all add: deleteLoop_cycle_def emit_def Len_def time_Before_def heap_Pop_empty)

section \<open>Runs: entries and their values\<close>

lemma exec_Nil [simp]: "exec c [] = c"
  by (simp add: exec_def)

lemma exec_Cons [simp]: "exec c (s # ss) = exec (exec_step c s) ss"
  by (simp add: exec_def)


lemma closures_deleteLoop_cycle [simp]: "closures (deleteLoop_cycle c now) = closures c"
  by (simp add: deleteLoop_cycle_def deleteKey_eq Let_def split: option.splits prod.splits)

lemma ttl_deleteLoop_cycle [simp]: "ttl (deleteLoop_cycle c now) = ttl c"
  by (simp add: deleteLoop_cycle_def deleteKey_eq Let_def split: option.splits prod.splits)

lemma closures_pickEntry:
  "closures (snd (pickEntry c k)) =
     (if cache c k = None
      then closures c @ [\<lparr>ckey = k, val = None, err = None, closed = False\<rparr>] else closures c)"
  by (cases "cache c k") (auto simp: pickEntry_miss pickEntry_hit)

lemma cache_pickEntry:
  "cache (snd (pickEntry c k)) =
     (if cache c k = None then (cache c)(k \<mapsto> Entry (length (closures c))) else cache c)"
  by (cases "cache c k") (auto simp: pickEntry_miss pickEntry_hit)


lemma ttl_exec_step [simp]: "ttl (exec_step c s) = ttl c"
proof (cases s)
  case (CallPickEntry k)
  then show ?thesis by (cases "cache c k") (simp_all add: pickEntry_miss pickEntry_hit)
next
  case (GoroutineRuns a v e now)
  then show ?thesis by (simp add: goroutine_eq)
next
  case (LoopCycle now)
  then show ?thesis by simp
qed

lemma ttl_exec [simp]: "ttl (exec c steps) = ttl c"
  by (induction steps arbitrary: c) simp_all

lemma length_closures_step: "length (closures c) \<le> length (closures (exec_step c s))"
  by (cases s) (simp_all add: closures_pickEntry goroutine_eq)

lemma closed_cell_step:
  "a < length (closures c) \<Longrightarrow> closed (closures c ! a) \<Longrightarrow>
   closures (exec_step c s) ! a = closures c ! a"
  by (cases s) (auto simp: closures_pickEntry goroutine_eq nth_append nth_list_update)


lemma closed_cell_exec:
  "a < length (closures c) \<Longrightarrow> closed (closures c ! a) \<Longrightarrow>
   a < length (closures (exec c steps)) \<and> closures (exec c steps) ! a = closures c ! a"
proof (induction steps arbitrary: c)
  case Nil
  then show ?case by simp
next
  case (Cons s steps)
  have 1: "a < length (closures (exec_step c s))"
    using Cons.prems(1) length_closures_step [of c s] by simp
  have 2: "closures (exec_step c s) ! a = closures c ! a"
    using Cons.prems by (rule closed_cell_step)
  with Cons.prems(2) have 3: "closed (closures (exec_step c s) ! a)" by simp
  from Cons.IH [OF 1 3] 2 show ?case by simp
qed



lemma entry_value_exec:
  "entry_value c e = Some r \<Longrightarrow> entry_value (exec c steps) e = Some r"
proof -
  assume v: "entry_value c e = Some r"
  then have a: "lazy e < length (closures c)" and cl: "closed (closures c ! lazy e)"
    by (simp_all add: entry_value_def Let_def split: if_splits)
  from v a cl have r: "r = (val (closures c ! lazy e), err (closures c ! lazy e))"
    by (simp add: entry_value_def Let_def)
  from closed_cell_exec [OF a cl, of steps] cl r show ?thesis
    by (simp add: entry_value_def Let_def)
qed

text \<open>
  Claim C8. Once forcing an entry has yielded a pair, every later forcing, after any further
  steps of the engine and by any caller, yields the same pair; the goroutine of that entry
  does not run again, so the pair is written once.
\<close>
theorem entry_value_written_once:
  "entry_value c e = Some r \<Longrightarrow>
   entry_value (exec c steps) e = Some r \<and>
   exec_step (exec c steps) (GoroutineRuns (lazy e) v' er' now') = exec c steps"
proof -
  assume v: "entry_value c e = Some r"
  from entry_value_exec [OF v, of steps]
  have w: "entry_value (exec c steps) e = Some r" .
  then have "closed (closures (exec c steps) ! lazy e)"
    by (simp add: entry_value_def Let_def split: if_splits)
  with w show ?thesis by simp
qed


section \<open>Coalescing, scheduling and eviction\<close>

lemma launched_goroutine: "launched (goroutine c a (v, er) now) k = launched c k"
  by (simp add: launched_def goroutine_eq length_filter_update)

lemma launched_deleteLoop_cycle: "launched (deleteLoop_cycle c now) k = launched c k"
  by (simp add: launched_def)





lemma miss_launches_one:
  "cache c k = None \<Longrightarrow>
   cache (snd (pickEntry c k)) k = Some (Entry (length (closures c))) \<and>
   launched (snd (pickEntry c k)) k = Suc (launched c k)"
  by (simp add: cache_pickEntry closures_pickEntry launched_def)

lemma is_heap_step: "is_heap (queue c) \<Longrightarrow> is_heap (queue (exec_step c s))"
proof (cases s)
  case (CallPickEntry k)
  assume "is_heap (queue c)"
  with CallPickEntry show ?thesis by (cases "cache c k") (simp_all add: pickEntry_miss pickEntry_hit)
next
  case (GoroutineRuns a v e now)
  assume "is_heap (queue c)"
  with GoroutineRuns show ?thesis by (simp add: goroutine_eq is_heap_Push)
next
  case (LoopCycle now)
  assume hp: "is_heap (queue c)"
  show ?thesis
  proof (cases "queue c = []")
    case True
    with hp LoopCycle show ?thesis by (simp add: deleteLoop_cycle_empty)
  next
    case False
    from heap_Pop_correct [OF hp False] obtain h' where
      p: "heap_Pop (queue c) = Some (queue c ! 0, h')" and h': "is_heap h'" by blast
    show ?thesis
    proof (cases "expire (queue c ! 0) < now")
      case True
      with p h' LoopCycle show ?thesis by (simp add: deleteLoop_cycle_expired)
    next
      case False
      with p h' LoopCycle show ?thesis by (simp add: deleteLoop_cycle_pending is_heap_Push)
    qed
  qed
qed



lemma cycle_evicts_min:
  assumes hp: "is_heap q" and qc: "queue c = heap_Push q it"
    and least: "\<forall>x \<in> set q. expire it < expire x" and ex: "expire it < now"
  shows "cache (deleteLoop_cycle c now) = (cache c)(key it := None)"
proof -
  let ?q = "heap_Push q it"
  have h1: "is_heap ?q" using hp by (rule is_heap_Push)
  have ne: "?q \<noteq> []" using length_heap_Push [of q it] by auto
  from heap_Pop_correct [OF h1 ne] obtain h' where
    p: "heap_Pop ?q = Some (?q ! 0, h')"
    and mn: "\<forall>x \<in> set ?q. expire (?q ! 0) \<le> expire x" by blast
  have s: "set ?q = insert it (set q)"
    using mset_heap_Push [of q it] by (metis set_mset_add_mset_insert set_mset_mset)
  from ne have "?q ! 0 \<in> set ?q" by (simp add: nth_mem)
  with s have "?q ! 0 = it \<or> ?q ! 0 \<in> set q" by auto
  moreover from mn s have "expire (?q ! 0) \<le> expire it" by simp
  ultimately have "?q ! 0 = it" using least by fastforce
  with p qc have "heap_Pop (queue c) = Some (it, h')" by simp
  from deleteLoop_cycle_expired [OF this ex] show ?thesis by simp
qed

lemma goroutine_queue:
  "queue (goroutine c a (v, er) now) =
     heap_Push (queue c) \<lparr>key = ckey (closures c ! a), expire = (if er = None then now + ttl c else now)\<rparr>"
  by (simp add: goroutine_eq)

text \<open>
  Claim C3. When the goroutine of a miss gets its result, the deletion queue grows by exactly
  one item for that key, expiring at \<open>now + ttl\<close> when the error is \<^verbatim>\<open>nil\<close> and at \<open>now\<close>
  otherwise; the goroutine does not run a second time. After a failure, an eviction cycle
  at a later instant that finds this item first removes the key, and the next call for the
  key launches a new goroutine.
\<close>
theorem completion_schedules_deletion:
  "a < length (closures c) \<Longrightarrow> \<not> closed (closures c ! a) \<Longrightarrow>
   mset (queue (exec_step c (GoroutineRuns a v er now))) =
     add_mset \<lparr>key = ckey (closures c ! a), expire = (if er = None then now + ttl c else now)\<rparr>
       (mset (queue c)) \<and>
   exec_step (exec_step c (GoroutineRuns a v er now)) (GoroutineRuns a v' er' now') =
     exec_step c (GoroutineRuns a v er now) \<and>
   (er \<noteq> None \<and> is_heap (queue c) \<and> (\<forall>x \<in> set (queue c). now < expire x) \<and> now < now' \<longrightarrow>
      cache (exec (exec_step c (GoroutineRuns a v er now)) [LoopCycle now']) (ckey (closures c ! a)) = None \<and>
      launched (exec (exec_step c (GoroutineRuns a v er now)) [LoopCycle now', CallPickEntry (ckey (closures c ! a))])
          (ckey (closures c ! a)) =
        Suc (launched c (ckey (closures c ! a))))"
proof (intro conjI impI)
  assume a: "a < length (closures c)" and p: "\<not> closed (closures c ! a)"
  let ?k = "ckey (closures c ! a)"
  let ?c1 = "exec_step c (GoroutineRuns a v er now)"
  have c1: "?c1 = goroutine c a (v, er) now" using a p by simp
  show "mset (queue ?c1) =
     add_mset \<lparr>key = ?k, expire = (if er = None then now + ttl c else now)\<rparr> (mset (queue c))"
    unfolding c1 by (simp add: goroutine_queue mset_heap_Push)
  have "closed (closures ?c1 ! a)" unfolding c1 using a by (simp add: goroutine_eq)
  then show "exec_step ?c1 (GoroutineRuns a v' er' now') = ?c1" by simp
  assume h: "er \<noteq> None \<and> is_heap (queue c) \<and> (\<forall>x \<in> set (queue c). now < expire x) \<and> now < now'"
  then have q1: "queue ?c1 = heap_Push (queue c) \<lparr>key = ?k, expire = now\<rparr>"
    unfolding c1 by (auto simp: goroutine_queue)
  have ev: "cache (deleteLoop_cycle ?c1 now') = (cache ?c1)(key \<lparr>key = ?k, expire = now\<rparr> := None)"
    using h by (intro cycle_evicts_min [OF _ q1]) simp_all
  then show gone: "cache (exec ?c1 [LoopCycle now']) ?k = None" by simp
  have "launched (deleteLoop_cycle ?c1 now') ?k = launched c ?k"
    unfolding c1 by (simp add: launched_deleteLoop_cycle launched_goroutine)
  with gone miss_launches_one [of "deleteLoop_cycle ?c1 now'" ?k]
  show "launched (exec ?c1 [LoopCycle now', CallPickEntry ?k]) ?k = Suc (launched c ?k)"
    by simp
qed

text \<open>
  Claim C4, as the code has it. On a cycle with a non-empty queue the item at the root,
  which no item precedes in expiry, is popped. When its expiry is strictly before \<open>now\<close>
  its key is deleted from the cache map and the item leaves the queue; otherwise the cache
  map is unchanged and the item is pushed back, the queue holding the same items.
\<close>
theorem deleteLoop_cycle_pops_minimum:
  "is_heap (queue c) \<Longrightarrow> queue c \<noteq> [] \<Longrightarrow>
   (\<forall>x \<in> set (queue c). expire (queue c ! 0) \<le> expire x) \<and>
   is_heap (queue (deleteLoop_cycle c now)) \<and>
   (if expire (queue c ! 0) < now
    then cache (deleteLoop_cycle c now) = (cache c)(key (queue c ! 0) := None) \<and>
         mset (queue (deleteLoop_cycle c now)) = mset (queue c) - {#queue c ! 0#}
    else cache (deleteLoop_cycle c now) = cache c \<and>
         mset (queue (deleteLoop_cycle c now)) = mset (queue c))"
proof -
  assume hp: "is_heap (queue c)" and ne: "queue c \<noteq> []"
  from heap_Pop_correct [OF hp ne] obtain h' where
    p: "heap_Pop (queue c) = Some (queue c ! 0, h')" and h': "is_heap h'"
    and m: "mset (queue c) = add_mset (queue c ! 0) (mset h')"
    and mn: "\<forall>x \<in> set (queue c). expire (queue c ! 0) \<le> expire x" by blast
  have ih: "is_heap (queue (deleteLoop_cycle c now))"
    using is_heap_step [OF hp, of "LoopCycle now"] by simp
  show ?thesis
  proof (cases "expire (queue c ! 0) < now")
    case True
    from deleteLoop_cycle_expired [OF p True] m mn ih True show ?thesis by simp
  next
    case False
    from deleteLoop_cycle_pending [OF p False] m mn ih False show ?thesis
      by (simp add: mset_heap_Push)
  qed
qed


section \<open>Retrievals in the runs of the engine\<close>













section \<open>The order of events and the locks\<close>

lemma log_grows: "\<exists>evs. log (exec_step c s) = log c @ evs"
proof (cases s)
  case (CallPickEntry k)
  then show ?thesis by (cases "cache c k") (simp_all add: pickEntry_miss pickEntry_hit)
next
  case (GoroutineRuns a v e now)
  then show ?thesis by (simp add: goroutine_eq)
next
  case (LoopCycle now)
  then show ?thesis
    by (simp add: deleteLoop_cycle_def deleteKey_eq emit_def Let_def split: option.splits prod.splits)
qed

lemma trace_pickEntry_miss:
  "cache c k = None \<Longrightarrow> trace c (CallPickEntry k) = [Lock CacheMutex, Go k, MapStore k, Unlock CacheMutex]"
  by (simp add: trace_def pickEntry_miss)

lemma trace_pickEntry_hit:
  "cache c k = Some e \<Longrightarrow> trace c (CallPickEntry k) = [Lock CacheMutex, Unlock CacheMutex]"
  by (simp add: trace_def pickEntry_hit)

lemma trace_goroutine:
  "a < length (closures c) \<Longrightarrow> \<not> closed (closures c ! a) \<Longrightarrow>
   trace c (GoroutineRuns a v er now) =
     [CallFetch (ckey (closures c ! a)), CloseDone a, Lock QueMutex,
      HeapPush (ckey (closures c ! a)) (if er = None then now + ttl c else now), Unlock QueMutex]"
  by (simp add: trace_def goroutine_eq)

lemma trace_goroutine_disabled:
  "\<not> (a < length (closures c) \<and> \<not> closed (closures c ! a)) \<Longrightarrow>
   trace c (GoroutineRuns a v er now) = []"
  by (auto simp: trace_def)

lemma trace_cycle_empty:
  "queue c = [] \<Longrightarrow> trace c (LoopCycle now) = [Lock QueMutex, Unlock QueMutex]"
  by (simp add: trace_def deleteLoop_cycle_empty)

lemma trace_cycle_expired:
  "heap_Pop (queue c) = Some (it, q) \<Longrightarrow> expire it < now \<Longrightarrow>
   trace c (LoopCycle now) =
     [Lock QueMutex, HeapPop (key it) (expire it), Lock CacheMutex, MapDelete (key it),
      Unlock CacheMutex, Unlock QueMutex]"
  by (simp add: trace_def deleteLoop_cycle_expired)

lemma trace_cycle_pending:
  "heap_Pop (queue c) = Some (it, q) \<Longrightarrow> \<not> expire it < now \<Longrightarrow>
   trace c (LoopCycle now) =
     [Lock QueMutex, HeapPop (key it) (expire it), HeapPush (key it) (expire it), Unlock QueMutex]"
  by (simp add: trace_def deleteLoop_cycle_pending)

lemma heap_Pop_Some: "h \<noteq> [] \<Longrightarrow> \<exists>it q. heap_Pop h = Some (it, q)"
  by (simp add: heap_Pop_def dq_Pop_def Len_def Let_def)

lemma goroutine_leaves_cache_lock: "Lock CacheMutex \<notin> set (trace c (GoroutineRuns a v er now))"
  by (cases "a < length (closures c) \<and> \<not> closed (closures c ! a)")
     (simp_all add: trace_goroutine trace_goroutine_disabled)

text \<open>
  Claim C5, as the code has it. On a miss \<^verbatim>\<open>pickEntry\<close> takes the cache-map lock, runs the
  \<^verbatim>\<open>go\<close> statement while it holds the lock, then stores the entry, and releases the lock
  on return: the goroutine is launched before the entry is stored and before the lock is
  released. The goroutine itself never takes the cache-map lock.
\<close>

theorem pickEntry_launches_under_lock:
  "cache (c :: ('k, 'v, 'e) CachedFetcher) k = None \<Longrightarrow>
   trace c (CallPickEntry k) = [Lock CacheMutex, Go k, MapStore k, Unlock CacheMutex] \<and>
   launches (trace c (CallPickEntry k)) = [(True, False, Go k)] \<and>
   precedes (Go k) (MapStore k) (trace c (CallPickEntry k)) \<and>
   precedes (MapStore k) (Unlock CacheMutex) (trace c (CallPickEntry k)) \<and>
   Lock CacheMutex \<notin> set (trace (c' :: ('k, 'v, 'e) CachedFetcher) (GoroutineRuns a v er now))"
  by (simp add: trace_pickEntry_miss launches_def precedes_def goroutine_leaves_cache_lock)

theorem pickEntry_launches_under_lock_witness:
  "trace (NewCachedFetcher 10 :: (nat, nat, nat) CachedFetcher) (CallPickEntry 1) =
     [Lock CacheMutex, Go 1, MapStore 1, Unlock CacheMutex]"
proof -
  have m: "cache (NewCachedFetcher 10 :: (nat, nat, nat) CachedFetcher) 1 = None"
    by (simp add: NewCachedFetcher_def)
  from pickEntry_launches_under_lock [OF m] show ?thesis by blast
qed

text \<open>
  Claim C5 as stated has the entry stored and the lock released before the launch. In the
  trace of a miss neither the store nor the unlock comes before the \<^verbatim>\<open>go\<close> statement, and
  the lock is held when it runs.
\<close>

theorem pickEntry_launch_after_unlock_counterexample:
  "cache (NewCachedFetcher 10 :: (nat, nat, nat) CachedFetcher) 1 = None \<and>
   \<not> precedes (Unlock CacheMutex) (Go 1)
       (trace (NewCachedFetcher 10 :: (nat, nat, nat) CachedFetcher) (CallPickEntry 1)) \<and>
   \<not> precedes (MapStore 1) (Go 1)
       (trace (NewCachedFetcher 10 :: (nat, nat, nat) CachedFetcher) (CallPickEntry 1)) \<and>
   launches (trace (NewCachedFetcher 10 :: (nat, nat, nat) CachedFetcher) (CallPickEntry 1)) =
     [(True, False, Go 1)]"
  by code_simp

text \<open>
  Claim C6, as the code has it. In every step of the engine both locks are held together
  for at most one event, the deletion of a key from the cache map. While the queue lock is
  held, a step does nothing, or pushes one item, or pops one item and pushes that item
  back, or pops one item and deletes its key from the cache map under the cache-map lock.
\<close>

theorem locks_held_together:
  "list_all is_MapDelete (under_both (trace c s)) \<and> length (under_both (trace c s)) \<le> 1 \<and>
   (\<exists>k t. under_queue (trace c s) = [] \<or> under_queue (trace c s) = [HeapPush k t] \<or>
          under_queue (trace c s) = [HeapPop k t, HeapPush k t] \<or>
          under_queue (trace c s) = [HeapPop k t, Lock CacheMutex, MapDelete k, Unlock CacheMutex])"
proof (cases s)
  case (CallPickEntry k)
  then show ?thesis
    by (cases "cache c k")
       (simp_all add: trace_pickEntry_miss trace_pickEntry_hit under_both_def under_queue_def)
next
  case (GoroutineRuns a v er now)
  show ?thesis
  proof (cases "a < length (closures c) \<and> \<not> closed (closures c ! a)")
    case True
    with GoroutineRuns show ?thesis
      by (simp add: trace_goroutine under_both_def under_queue_def)
  next
    case False
    with GoroutineRuns show ?thesis
      by (simp add: trace_goroutine_disabled under_both_def under_queue_def)
  qed
next
  case (LoopCycle now)
  show ?thesis
  proof (cases "queue c = []")
    case True
    with LoopCycle show ?thesis by (simp add: trace_cycle_empty under_both_def under_queue_def)
  next
    case False
    from heap_Pop_Some [OF this] obtain it q where p: "heap_Pop (queue c) = Some (it, q)" by blast
    show ?thesis
    proof (cases "expire it < now")
      case True
      from trace_cycle_expired [OF p True] LoopCycle show ?thesis
        by (simp add: under_both_def under_queue_def)
    next
      case False
      from trace_cycle_pending [OF p False] LoopCycle show ?thesis
        by (simp add: under_both_def under_queue_def)
    qed
  qed
qed

theorem locks_held_together_witness:
  "under_both (trace (exec (NewCachedFetcher 2 :: (nat, nat, nat) CachedFetcher)
       [CallPickEntry 1, GoroutineRuns 0 (Some 7) None 3]) (LoopCycle 6)) = [MapDelete 1] \<and>
   length (under_both (trace (exec (NewCachedFetcher 2 :: (nat, nat, nat) CachedFetcher)
       [CallPickEntry 1, GoroutineRuns 0 (Some 7) None 3]) (LoopCycle 6))) \<le> 1"
proof -
  let ?c = "exec (NewCachedFetcher 2 :: (nat, nat, nat) CachedFetcher)
       [CallPickEntry 1, GoroutineRuns 0 (Some 7) None 3]"
  have u: "under_both (trace ?c (LoopCycle 6)) = [MapDelete 1]" by code_simp
  from locks_held_together [of ?c "LoopCycle 6"] u show ?thesis by blast
qed

text \<open>
  Claim C6 as stated has the queue lock held only to push or pop a single item. A cycle
  that finds an expired item holds the queue lock while it takes the cache-map lock and
  deletes the key; a cycle that finds an unexpired item pops and pushes under one hold of
  the queue lock.
\<close>

theorem queue_lock_only_push_pop_counterexample:
  "under_queue (trace (exec (NewCachedFetcher 2 :: (nat, nat, nat) CachedFetcher)
       [CallPickEntry 1, GoroutineRuns 0 (Some 7) None 3]) (LoopCycle 6)) =
     [HeapPop 1 5, Lock CacheMutex, MapDelete 1, Unlock CacheMutex] \<and>
   under_both (trace (exec (NewCachedFetcher 2 :: (nat, nat, nat) CachedFetcher)
       [CallPickEntry 1, GoroutineRuns 0 (Some 7) None 3]) (LoopCycle 6)) = [MapDelete 1] \<and>
   \<not> list_all is_queue_op (under_queue (trace (exec (NewCachedFetcher 2 :: (nat, nat, nat) CachedFetcher)
       [CallPickEntry 1, GoroutineRuns 0 (Some 7) None 3]) (LoopCycle 6))) \<and>
   under_queue (trace (exec (NewCachedFetcher 2 :: (nat, nat, nat) CachedFetcher)
       [CallPickEntry 1, GoroutineRuns 0 (Some 7) None 3]) (LoopCycle 4)) =
     [HeapPop 1 5, HeapPush 1 5]"
  by code_simp

section \<open>SafeFetcher\<close>

lemma SafeFetcher_run_Nil [simp]: "SafeFetcher_run sf [] = sf"
  by (simp add: SafeFetcher_run_def)

lemma SafeFetcher_run_snoc [simp]:
  "SafeFetcher_run sf (steps @ [s]) = SafeFetcher_step (SafeFetcher_run sf steps) s"
  by (simp add: SafeFetcher_run_def)

lemma in_flight_step:
  assumes inv: "in_flight sf = (if locked sf then 1 else 0)"
  shows "in_flight (SafeFetcher_step sf s) = (if locked (SafeFetcher_step sf s) then 1 else 0)"
proof (cases s)
  case (Enter k)
  with inv show ?thesis by (simp add: in_flight_def)
next
  case (Acquire i)
  show ?thesis
  proof (cases "i < length (callers sf) \<and> \<not> locked sf")
    case False
    with inv Acquire show ?thesis by auto
  next
    case True
    show ?thesis
    proof (cases "callers sf ! i")
      case (Waiting k)
      from True have "i < length (callers sf)" by simp
      from length_filter_list_update [OF this, of is_Calling "Calling k"] Waiting inv True
      have "length (filter is_Calling ((callers sf)[i := Calling k])) = 1"
        by (simp add: in_flight_def)
      with True Waiting Acquire show ?thesis by (simp add: in_flight_def)
    next
      case (Calling k)
      with inv True Acquire show ?thesis by simp
    next
      case (Finished r)
      with inv True Acquire show ?thesis by simp
    qed
  qed
next
  case (Leave i r)
  show ?thesis
  proof (cases "i < length (callers sf)")
    case False
    with inv Leave show ?thesis by simp
  next
    case True
    show ?thesis
    proof (cases "callers sf ! i")
      case (Calling k)
      from length_filter_list_update [OF True, of is_Calling "Finished r"] Calling
      have e: "length (filter is_Calling ((callers sf)[i := Finished r])) + 1 =
          length (filter is_Calling (callers sf))" by simp
      with inv have "length (filter is_Calling ((callers sf)[i := Finished r])) = 0"
        by (simp add: in_flight_def split: if_splits)
      with True Calling Leave show ?thesis by (simp add: in_flight_def)
    next
      case (Waiting k)
      with inv True Leave show ?thesis by simp
    next
      case (Finished r')
      with inv True Leave show ?thesis by simp
    qed
  qed
qed

lemma in_flight_run:
  "in_flight (SafeFetcher_run NewSafeFetcher steps) =
     (if locked (SafeFetcher_run NewSafeFetcher steps) then 1 else 0)"
proof (induction steps rule: rev_induct)
  case Nil
  show ?case by (simp add: NewSafeFetcher_def in_flight_def)
next
  case (snoc s steps)
  from in_flight_step [OF snoc.IH] show ?case by simp
qed

text \<open>
  Claim C9. In every run of callers of \<^verbatim>\<open>SafeFetcher.Fetch\<close>, at most one call of the
  wrapped Fetcher is in flight, and one is in flight exactly while the mutex is locked. A
  waiting caller starts the wrapped call only by taking the mutex, which it cannot while
  the mutex is locked. When the wrapped call of a caller ends, by returning any pair or by
  a panic, the mutex is unlocked and the caller leaves with exactly that outcome.
\<close>

theorem SafeFetcher_serializes:
  "in_flight (SafeFetcher_run NewSafeFetcher steps) \<le> 1 \<and>
   (locked (SafeFetcher_run NewSafeFetcher steps) \<longleftrightarrow>
      in_flight (SafeFetcher_run NewSafeFetcher steps) = 1) \<and>
   (i < length (callers (SafeFetcher_run NewSafeFetcher steps)) \<and>
    callers (SafeFetcher_run NewSafeFetcher steps) ! i = Waiting k \<longrightarrow>
      (if locked (SafeFetcher_run NewSafeFetcher steps)
       then SafeFetcher_run NewSafeFetcher (steps @ [Acquire i]) = SafeFetcher_run NewSafeFetcher steps
       else callers (SafeFetcher_run NewSafeFetcher (steps @ [Acquire i])) ! i = Calling k \<and>
            locked (SafeFetcher_run NewSafeFetcher (steps @ [Acquire i])))) \<and>
   (i < length (callers (SafeFetcher_run NewSafeFetcher steps)) \<and>
    callers (SafeFetcher_run NewSafeFetcher steps) ! i = Calling k \<longrightarrow>
      locked (SafeFetcher_run NewSafeFetcher steps) \<and>
      callers (SafeFetcher_run NewSafeFetcher (steps @ [Leave i r])) ! i = Finished r \<and>
      \<not> locked (SafeFetcher_run NewSafeFetcher (steps @ [Leave i r])) \<and>
      in_flight (SafeFetcher_run NewSafeFetcher (steps @ [Leave i r])) = 0)"
proof (intro conjI impI)
  let ?sf = "SafeFetcher_run NewSafeFetcher steps"
  note inv = in_flight_run [of steps]
  show "in_flight ?sf \<le> 1" using inv by (simp split: if_splits)
  show "locked ?sf \<longleftrightarrow> in_flight ?sf = 1" using inv by (simp split: if_splits)
  show "if locked ?sf
       then SafeFetcher_run NewSafeFetcher (steps @ [Acquire i]) = ?sf
       else callers (SafeFetcher_run NewSafeFetcher (steps @ [Acquire i])) ! i = Calling k \<and>
            locked (SafeFetcher_run NewSafeFetcher (steps @ [Acquire i]))"
    if "i < length (callers ?sf) \<and> callers ?sf ! i = Waiting k"
    using that by simp
  assume c: "i < length (callers ?sf) \<and> callers ?sf ! i = Calling k"
  then have "is_Calling (callers ?sf ! i)" "callers ?sf ! i \<in> set (callers ?sf)"
    using nth_mem [of i "callers ?sf"] by simp_all
  then have "filter is_Calling (callers ?sf) \<noteq> []" by (auto simp: filter_empty_conv)
  then have "in_flight ?sf \<noteq> 0" by (simp add: in_flight_def)
  with inv show "locked ?sf" by (simp split: if_splits)
  from c show "callers (SafeFetcher_run NewSafeFetcher (steps @ [Leave i r])) ! i = Finished r"
    by simp
  from c show l: "\<not> locked (SafeFetcher_run NewSafeFetcher (steps @ [Leave i r]))" by simp
  from in_flight_run [of "steps @ [Leave i r]"] l
  show "in_flight (SafeFetcher_run NewSafeFetcher (steps @ [Leave i r])) = 0" by simp
qed

theorem SafeFetcher_serializes_witness:
  "in_flight (SafeFetcher_run (NewSafeFetcher :: (nat, nat, nat, nat) SafeFetcher)
      [Enter 1, Enter 2, Acquire 1, Acquire 0]) \<le> 1 \<and>
   SafeFetcher_run (NewSafeFetcher :: (nat, nat, nat, nat) SafeFetcher)
      ([Enter 1, Enter 2, Acquire 1] @ [Acquire 0]) =
   SafeFetcher_run (NewSafeFetcher :: (nat, nat, nat, nat) SafeFetcher) [Enter 1, Enter 2, Acquire 1] \<and>
   callers (SafeFetcher_run (NewSafeFetcher :: (nat, nat, nat, nat) SafeFetcher)
      ([Enter 1, Enter 2, Acquire 1] @ [Leave 1 (Panicked 9)])) ! 1 = Finished (Panicked 9) \<and>
   \<not> locked (SafeFetcher_run (NewSafeFetcher :: (nat, nat, nat, nat) SafeFetcher)
      ([Enter 1, Enter 2, Acquire 1] @ [Leave 1 (Panicked 9)])) \<and>
   callers (SafeFetcher_run (NewSafeFetcher :: (nat, nat, nat, nat) SafeFetcher)
      ([Enter 1, Enter 2, Acquire 1] @ [Leave 1 (Returned None (Some 4))])) ! 1
     = Finished (Returned None (Some 4))"
proof -
  let ?steps = "[Enter 1, Enter 2, Acquire 1] :: (nat, nat, nat, nat) sf_step list"
  let ?sf = "SafeFetcher_run (NewSafeFetcher :: (nat, nat, nat, nat) SafeFetcher) ?steps"
  have l: "locked ?sf" by code_simp
  have n: "0 < length (callers ?sf)" "1 < length (callers ?sf)" by code_simp+
  have w: "callers ?sf ! 0 = Waiting 1" by code_simp
  have c: "callers ?sf ! 1 = Calling 2" by code_simp
  from SafeFetcher_serializes [of "?steps @ [Acquire 0]" 0 1 "Panicked 9"]
  have 1: "in_flight (SafeFetcher_run (NewSafeFetcher :: (nat, nat, nat, nat) SafeFetcher)
      [Enter 1, Enter 2, Acquire 1, Acquire 0]) \<le> 1" by simp
  from SafeFetcher_serializes [of ?steps 0 1 "Panicked 9"] l n w
  have 2: "SafeFetcher_run (NewSafeFetcher :: (nat, nat, nat, nat) SafeFetcher) (?steps @ [Acquire 0]) = ?sf"
    by presburger
  from SafeFetcher_serializes [of ?steps 1 2 "Panicked 9"] n c
  have 3: "callers (SafeFetcher_run (NewSafeFetcher :: (nat, nat, nat, nat) SafeFetcher)
      (?steps @ [Leave 1 (Panicked 9)])) ! 1 = Finished (Panicked 9)"
    and 4: "\<not> locked (SafeFetcher_run (NewSafeFetcher :: (nat, nat, nat, nat) SafeFetcher)
      (?steps @ [Leave 1 (Panicked 9)]))" by blast+
  from SafeFetcher_serializes [of ?steps 1 2 "Returned None (Some 4)"] n c
  have 5: "callers (SafeFetcher_run (NewSafeFetcher :: (nat, nat, nat, nat) SafeFetcher)
      (?steps @ [Leave 1 (Returned None (Some 4))])) ! 1 = Finished (Returned None (Some 4))" by blast
  from 1 2 3 4 5 show ?thesis by blast
qed

section \<open>Concrete runs\<close>



theorem completion_schedules_deletion_witness:
  "mset (queue (exec_step (exec (NewCachedFetcher 10 :: (nat, nat, nat) CachedFetcher)
         [CallPickEntry 2, GoroutineRuns 0 (Some 1) None 100, CallPickEntry 1])
       (GoroutineRuns 1 None (Some 4) 3))) =
     {#\<lparr>key = 1, expire = 3\<rparr>, \<lparr>key = 2, expire = 110\<rparr>#} \<and>
   cache (exec (exec_step (exec (NewCachedFetcher 10 :: (nat, nat, nat) CachedFetcher)
         [CallPickEntry 2, GoroutineRuns 0 (Some 1) None 100, CallPickEntry 1])
       (GoroutineRuns 1 None (Some 4) 3)) [LoopCycle 4]) 1 = None \<and>
   launched (exec (exec_step (exec (NewCachedFetcher 10 :: (nat, nat, nat) CachedFetcher)
         [CallPickEntry 2, GoroutineRuns 0 (Some 1) None 100, CallPickEntry 1])
       (GoroutineRuns 1 None (Some 4) 3)) [LoopCycle 4, CallPickEntry 1]) 1 = 2"
proof -
  let ?c = "exec (NewCachedFetcher 10 :: (nat, nat, nat) CachedFetcher)
         [CallPickEntry 2, GoroutineRuns 0 (Some 1) None 100, CallPickEntry 1]"
  have a: "1 < length (closures ?c)" by code_simp
  have p: "\<not> closed (closures ?c ! 1)" by code_simp
  have q: "queue ?c = [\<lparr>key = 2, expire = 110\<rparr>]" by code_simp
  have k: "ckey (closures ?c ! 1) = 1" by code_simp
  have l: "launched ?c 1 = 1" by code_simp
  have h: "Some (4::nat) \<noteq> None \<and> is_heap (queue ?c) \<and> (\<forall>x \<in> set (queue ?c). 3 < expire x) \<and> (3::int) < 4"
    unfolding q by (simp add: is_heap_def)
  from completion_schedules_deletion [OF a p, of None "Some 4" 3 None None 4] h
  have "mset (queue (exec_step ?c (GoroutineRuns 1 None (Some 4) 3))) =
      add_mset \<lparr>key = ckey (closures ?c ! 1), expire = (if Some (4::nat) = None then 3 + ttl ?c else 3)\<rparr>
        (mset (queue ?c))"
    and "cache (exec (exec_step ?c (GoroutineRuns 1 None (Some 4) 3)) [LoopCycle 4]) (ckey (closures ?c ! 1)) = None"
    and "launched (exec (exec_step ?c (GoroutineRuns 1 None (Some 4) 3))
           [LoopCycle 4, CallPickEntry (ckey (closures ?c ! 1))]) (ckey (closures ?c ! 1)) =
         Suc (launched ?c (ckey (closures ?c ! 1)))"
    by blast+
  then show ?thesis unfolding k q l by simp
qed

theorem deleteLoop_cycle_pops_minimum_witness:
  "cache (deleteLoop_cycle (exec (NewCachedFetcher 2 :: (nat, nat, nat) CachedFetcher)
      [CallPickEntry 1, GoroutineRuns 0 (Some 7) None 3]) 6) 1 = None \<and>
   cache (deleteLoop_cycle (exec (NewCachedFetcher 2 :: (nat, nat, nat) CachedFetcher)
      [CallPickEntry 1, GoroutineRuns 0 (Some 7) None 3]) 4) 1 = Some (Entry 0)"
proof -
  let ?c = "exec (NewCachedFetcher 2 :: (nat, nat, nat) CachedFetcher)
      [CallPickEntry 1, GoroutineRuns 0 (Some 7) None 3]"
  have q: "queue ?c = [\<lparr>key = 1, expire = 5\<rparr>]" by code_simp
  have h: "is_heap (queue ?c)" unfolding q by (simp add: is_heap_def)
  have n: "queue ?c \<noteq> []" unfolding q by simp
  have c: "cache ?c 1 = Some (Entry 0)" by code_simp
  from deleteLoop_cycle_pops_minimum [OF h n, of 6] deleteLoop_cycle_pops_minimum [OF h n, of 4] q c
  show ?thesis by simp
qed

text \<open>
  Claim C4 as stated deletes the key when the expiry equals \<open>now\<close>. The code tests
  \<^verbatim>\<open>item.expire.Before(time.Now())\<close>: at \<open>now = 5\<close> an item expiring at 5 is pushed back
  and its key stays in the cache map.
\<close>

theorem deleteLoop_cycle_at_expiry_counterexample:
  "expire (queue (exec (NewCachedFetcher 2 :: (nat, nat, nat) CachedFetcher)
      [CallPickEntry 1, GoroutineRuns 0 (Some 7) None 3]) ! 0) \<le> 5 \<and>
   cache (deleteLoop_cycle (exec (NewCachedFetcher 2 :: (nat, nat, nat) CachedFetcher)
      [CallPickEntry 1, GoroutineRuns 0 (Some 7) None 3]) 5) 1 = Some (Entry 0) \<and>
   queue (deleteLoop_cycle (exec (NewCachedFetcher 2 :: (nat, nat, nat) CachedFetcher)
      [CallPickEntry 1, GoroutineRuns 0 (Some 7) None 3]) 5) = [\<lparr>key = 1, expire = 5\<rparr>]"
  by code_simp

theorem entry_value_written_once_witness:
  "entry_value (exec (exec (NewCachedFetcher 2 :: (nat, nat, nat) CachedFetcher)
        [CallPickEntry 1, GoroutineRuns 0 (Some 7) None 3])
      [LoopCycle 20, CallPickEntry 1, GoroutineRuns 0 (Some 9) None 30]) (Entry 0) = Some (Some 7, None)"
proof -
  let ?c = "exec (NewCachedFetcher 2 :: (nat, nat, nat) CachedFetcher)
      [CallPickEntry 1, GoroutineRuns 0 (Some 7) None 3]"
  have v: "entry_value ?c (Entry 0) = Some (Some 7, None)" by code_simp
  from entry_value_written_once [OF v, of "[LoopCycle 20, CallPickEntry 1, GoroutineRuns 0 (Some 9) None 30]"]
  show ?thesis by simp
qed


end
